theory Spec2Isabelle
  imports Main
begin

unbundle bit_operations_syntax

section \<open>JavaScript primitives used by the converter\<close>

text \<open>
  The exact-arithmetic engine of \<^verbatim>\<open>src/src/App.jsx\<close> (lines 1-478) computes on
  \<^verbatim>\<open>BigInt\<close> values, modelled as \<^typ>\<open>int\<close>: both are unbounded, and the bitwise
  operators of both read a negative number in infinite two's complement. Bit counts and
  other \<^verbatim>\<open>Number\<close> arguments are integers in the program and are \<^typ>\<open>int\<close> too.
  A string is a list of code units; only code units below 256 are modelled.
\<close>

definition absBig :: "int \<Rightarrow> int" where
  "absBig a = (if a < 0 then - a else a)"

text \<open>\<^verbatim>\<open>a << BigInt(k)\<close> and \<^verbatim>\<open>a >> BigInt(k)\<close>: a negative count shifts the other way.\<close>

definition bigShl :: "int \<Rightarrow> int \<Rightarrow> int" where
  "bigShl a k = (if 0 \<le> k then push_bit (nat k) a else drop_bit (nat (- k)) a)"

definition bigShr :: "int \<Rightarrow> int \<Rightarrow> int" where
  "bigShr a k = (if 0 \<le> k then drop_bit (nat k) a else push_bit (nat (- k)) a)"

text \<open>
  \<^verbatim>\<open>a / b\<close> and \<^verbatim>\<open>a % b\<close> on BigInt truncate towards zero. Division by zero throws; the
  one place that divides, \<open>candidateScaled\<close>, tests the divisor first.
\<close>

definition bigDiv :: "int \<Rightarrow> int \<Rightarrow> int" where
  "bigDiv a b = sgn a * sgn b * (\<bar>a\<bar> div \<bar>b\<bar>)"

definition bigRem :: "int \<Rightarrow> int \<Rightarrow> int" where
  "bigRem a b = a - b * bigDiv a b"

text \<open>
  \<^verbatim>\<open>n.toString(radix)\<close> for a BigInt and a radix in 2..36 (the program uses 2, 10 and
  16): lower-case digits, no leading zero, a minus sign for a negative number.
\<close>

definition digitChar :: "nat \<Rightarrow> char" where
  "digitChar d = ''0123456789abcdefghijklmnopqrstuvwxyz'' ! d"

function natToString :: "nat \<Rightarrow> nat \<Rightarrow> string" where
  "natToString radix n =
     (if radix < 2 \<or> n < radix then [digitChar n]
      else natToString radix (n div radix) @ [digitChar (n mod radix)])"
  by pat_completeness auto
termination
  by (relation "measure (\<lambda>(radix, n). n)") auto

declare natToString.simps [simp del]

definition bigintToString :: "int \<Rightarrow> nat \<Rightarrow> string" where
  "bigintToString n radix =
     (if n < 0 then CHR ''-'' # natToString radix (nat (- n)) else natToString radix (nat n))"

text \<open>\<^verbatim>\<open>s.padStart(targetLength, c)\<close>: nothing is added when \<open>s\<close> is long enough.\<close>

definition padStart :: "string \<Rightarrow> int \<Rightarrow> char \<Rightarrow> string" where
  "padStart s targetLength c = replicate (nat targetLength - length s) c @ s"

text \<open>\<^verbatim>\<open>toUpperCase\<close>, on the ASCII letters (it is applied to \<^verbatim>\<open>toString(16)\<close> only).\<close>

definition toUpperCase :: "string \<Rightarrow> string" where
  "toUpperCase s =
     map (\<lambda>c. if 97 \<le> (of_char c :: nat) \<and> (of_char c :: nat) \<le> 122
              then char_of ((of_char c :: nat) - 32) else c) s"

section \<open>The bit codec\<close>

text \<open>
  \<^verbatim>\<open>bigintToBinary(n, width)\<close>, lines 17-21.
\<close>

definition bigintToBinary :: "int \<Rightarrow> int \<Rightarrow> string" where
  "bigintToBinary n width =
     (let mask = bigShl 1 width - 1
      in padStart (bigintToString (n AND mask) 2) width (CHR ''0''))"

text \<open>
  The encoding step that \<^verbatim>\<open>binaryWithPointFromScaled\<close> (lines 124-128),
  \<^verbatim>\<open>hexFromScaled\<close> (139-143), \<^verbatim>\<open>drawBitsCanvas\<close> (190-192), \<^verbatim>\<open>twosPattern\<close>
  (262-264) and \<^verbatim>\<open>handleCanvasEvent\<close> (314-316) all repeat:
  \<^verbatim>\<open>let twos = scaled; if (signed && scaled < 0n) twos = (scaled + (1n << BigInt(N))) & mask;\<close>
\<close>

definition toTwos :: "bool \<Rightarrow> int \<Rightarrow> int \<Rightarrow> int" where
  "toTwos signed N scaled =
     (let mask = bigShl 1 N - 1
      in if signed \<and> scaled < 0 then (scaled + bigShl 1 N) AND mask else scaled)"

text \<open>The bit pattern the canvas draws (line 193) and the outputs start from (129, 265).\<close>

definition toBits :: "bool \<Rightarrow> int \<Rightarrow> int \<Rightarrow> string" where
  "toBits signed N scaled = bigintToBinary (toTwos signed N scaled) N"

text \<open>
  The decoding step of \<^verbatim>\<open>handleCanvasEvent\<close>, line 321:
  \<^verbatim>\<open>signed && (twosNew & (1n << BigInt(N - 1))) ? twosNew - (1n << BigInt(N)) : twosNew\<close>
  (a BigInt is truthy when it is not zero).
\<close>

definition fromTwos :: "bool \<Rightarrow> int \<Rightarrow> int \<Rightarrow> int" where
  "fromTwos signed N twosNew =
     (if signed \<and> (twosNew AND bigShl 1 (N - 1)) \<noteq> 0 then twosNew - bigShl 1 N else twosNew)"

text \<open>
  The click branch of \<^verbatim>\<open>handleCanvasEvent\<close>, lines 312-321, from the bit index on
  (index 0 is the most significant bit).
\<close>

definition toggleBit :: "bool \<Rightarrow> int \<Rightarrow> int \<Rightarrow> int \<Rightarrow> int" where
  "toggleBit signed N scaled idx =
     (let mask = bigShl 1 N - 1;
          twos = toTwos signed N scaled;
          bitMask = bigShl 1 (N - 1 - idx);
          twosNew = (twos XOR bitMask) AND mask
      in fromTwos signed N twosNew)"

text \<open>
  Line 307 with the click branch: an index outside \<open>[0, N)\<close> returns before any toggle.
\<close>

definition clickBit :: "bool \<Rightarrow> int \<Rightarrow> int \<Rightarrow> int \<Rightarrow> int option" where
  "clickBit signed N scaled idx =
     (if idx < 0 \<or> idx \<ge> N then None else Some (toggleBit signed N scaled idx))"

text \<open>
  The specification's reading of a bit pattern (its decode contract): the pattern, most
  significant bit first, as an unsigned integer \<open>u\<close>; \<open>u - 2^totalBits\<close> when the format is
  signed and the first bit is 1, else \<open>u\<close>. The program has no such function on strings
  (it decodes the integer, \<open>fromTwos\<close>); this one follows the specification's words and is
  compared with the program's.
\<close>

fun bitsValue :: "int \<Rightarrow> string \<Rightarrow> int" where
  "bitsValue u [] = u"
| "bitsValue u (c # cs) = bitsValue (2 * u + (if c = CHR ''1'' then 1 else 0)) cs"

definition spec_fromBits :: "bool \<Rightarrow> string \<Rightarrow> int" where
  "spec_fromBits signed bits =
     (let u = bitsValue 0 bits
      in if signed \<and> take 1 bits = ''1'' then u - 2 ^ length bits else u)"

text \<open>The range of a format, as \<^verbatim>\<open>parseInputToScaled\<close> computes it (lines 107-114).\<close>

definition minScaled :: "bool \<Rightarrow> int \<Rightarrow> int" where
  "minScaled signed N = (if signed then - bigShl 1 (N - 1) else 0)"

definition maxScaled :: "bool \<Rightarrow> int \<Rightarrow> int" where
  "maxScaled signed N = (if signed then bigShl 1 (N - 1) - 1 else bigShl 1 N - 1)"

section \<open>The text parser\<close>

text \<open>
  What a call returns: \<open>Ok\<close> a result, \<open>Err\<close> the program's own \<^verbatim>\<open>{ err }\<close> object (or
  \<^verbatim>\<open>null\<close> turned into one), \<open>Threw\<close> an exception of the runtime.
\<close>

datatype 'a outcome = Threw string | Err string | Ok 'a

text \<open>\<^verbatim>\<open>str.trim()\<close>: white space and line terminators, among the code units below 256.\<close>

definition isWhiteSpace :: "char \<Rightarrow> bool" where
  "isWhiteSpace c = ((of_char c :: nat) \<in> {9, 10, 11, 12, 13, 32, 160})"

definition trim :: "string \<Rightarrow> string" where
  "trim s = rev (dropWhile isWhiteSpace (rev (dropWhile isWhiteSpace s)))"

text \<open>
  \<^verbatim>\<open>rmall(s, needle)\<close>, lines 12-15: the needle is escaped, so the global replace deletes
  every occurrence of it as a literal, left to right (an empty needle deletes nothing).
\<close>

function rmall :: "string \<Rightarrow> string \<Rightarrow> string" where
  "rmall [] needle = []"
| "rmall (c # cs) needle =
     (if needle = [] then c # cs
      else if take (length needle) (c # cs) = needle
      then rmall (drop (length needle) (c # cs)) needle
      else c # rmall cs needle)"
  by pat_completeness auto
termination
  by (relation "measure (\<lambda>(s, needle). length s)") auto

text \<open>
  \<^verbatim>\<open>parseInt(ch, radix)\<close> on a string of one code unit: the digit's value when it is a
  digit of the radix, \<^verbatim>\<open>NaN\<close> (\<open>None\<close>) otherwise; radix 0 reads as 10 and a radix
  outside 2..36 gives \<^verbatim>\<open>NaN\<close>.
\<close>

definition digitOfChar :: "char \<Rightarrow> nat option" where
  "digitOfChar c =
     (let k = (of_char c :: nat)
      in if 48 \<le> k \<and> k \<le> 57 then Some (k - 48)
         else if 97 \<le> k \<and> k \<le> 122 then Some (k - 87)
         else if 65 \<le> k \<and> k \<le> 90 then Some (k - 55)
         else None)"

definition parseInt :: "char \<Rightarrow> nat \<Rightarrow> nat option" where
  "parseInt c radix =
     (let R = (if radix = 0 then 10 else radix)
      in if R < 2 \<or> 36 < R then None
         else case digitOfChar c of
                None \<Rightarrow> None
              | Some v \<Rightarrow> if v < R then Some v else None)"

text \<open>
  The digit loop of \<^verbatim>\<open>parseFractionalInBase\<close> (lines 28-32), which
  \<^verbatim>\<open>parseInputToScaled\<close> repeats for the integer digits (lines 86-90):
  \<^verbatim>\<open>if (!Number.isFinite(v) || v < 0 || v >= base)\<close> leaves with a failure, otherwise
  \<^verbatim>\<open>num = num * BigInt(base) + BigInt(v)\<close>.
\<close>

fun digitLoop :: "nat \<Rightarrow> int \<Rightarrow> string \<Rightarrow> int option" where
  "digitLoop base num [] = Some num"
| "digitLoop base num (c # cs) =
     (case parseInt c base of
        None \<Rightarrow> None
      | Some v \<Rightarrow> if v \<ge> base then None else digitLoop base (num * int base + int v) cs)"

text \<open>\<^verbatim>\<open>parseFractionalInBase(strFrac, base)\<close>, lines 23-34: \<open>Some (num, den)\<close> or \<^verbatim>\<open>null\<close>.\<close>

definition parseFractionalInBase :: "string \<Rightarrow> nat \<Rightarrow> (int \<times> int) option" where
  "parseFractionalInBase strFrac base =
     (if strFrac = [] then Some (0, 1)
      else let k = length strFrac;
               den = int base ^ k
           in case digitLoop base 0 strFrac of
                None \<Rightarrow> None
              | Some num \<Rightarrow> Some (num, den))"

text \<open>
  The integer loop of \<^verbatim>\<open>parseSignedDecimal\<close>, lines 46-51; it returns \<open>intPart\<close> and the
  rest of \<open>t\<close> from index \<open>i\<close> on.
\<close>

fun decimalIntLoop :: "int \<Rightarrow> string \<Rightarrow> (int \<times> string) option" where
  "decimalIntLoop intPart [] = Some (intPart, [])"
| "decimalIntLoop intPart (c # cs) =
     (if c = CHR ''.'' then Some (intPart, c # cs)
      else let code = int (of_char c) - 48
           in if code < 0 \<or> code > 9 then None
              else decimalIntLoop (intPart * 10 + code) cs)"

text \<open>\<^verbatim>\<open>parseSignedDecimal(str)\<close>, lines 36-59: \<open>Some (sign, intPart, num, den)\<close> or \<^verbatim>\<open>null\<close>.\<close>

definition parseSignedDecimal :: "string \<Rightarrow> (int \<times> int \<times> int \<times> int) option" where
  "parseSignedDecimal str =
     (let s = rmall (trim str) ''_''
      in case s of
           [] \<Rightarrow> None
         | c # cs \<Rightarrow>
             let (sign, t) = (if c = CHR ''+'' then (1, cs)
                              else if c = CHR ''-'' then (- 1, cs) else (1, s))
             in case decimalIntLoop 0 t of
                  None \<Rightarrow> None
                | Some (intPart, rest) \<Rightarrow>
                    (case rest of
                       [] \<Rightarrow> Some (sign, intPart, 0, 1)
                     | d # fracStr \<Rightarrow>
                         if d = CHR ''.''
                         then (case parseFractionalInBase fracStr 10 of
                                 None \<Rightarrow> None
                               | Some (num, den) \<Rightarrow> Some (sign, intPart, num, den))
                         else Some (sign, intPart, 0, 1)))"

text \<open>\<^verbatim>\<open>s.split(".")\<close>: the first part and the parts after it.\<close>

fun split :: "string \<Rightarrow> char \<Rightarrow> string \<times> string list" where
  "split [] sep = ([], [])"
| "split (c # cs) sep =
     (let (p, ps) = split cs sep
      in if c = sep then ([], p # ps) else (c # p, ps))"

text \<open>
  Lines 66-96 of \<^verbatim>\<open>parseInputToScaled\<close>: the input as a sign and an exact fraction,
  \<open>(negative, rationalNum, rationalDen)\<close>.
\<close>

definition parseRational :: "string \<Rightarrow> nat \<Rightarrow> (bool \<times> int \<times> int) outcome" where
  "parseRational valueStr base =
     (if base = 10 then
        (case parseSignedDecimal valueStr of
           None \<Rightarrow> Err ''Invalid decimal input.''
         | Some (sign, intPart, num, den) \<Rightarrow> Ok (sign < 0, intPart * den + num, den))
      else
        let s0 = rmall (trim valueStr) ''_'';
            (sign, s) = (if take 1 s0 = ''-'' then (- 1 :: int, drop 1 s0)
                         else if take 1 s0 = ''+'' then (1, drop 1 s0) else (1, s0));
            (ip, more) = split s (CHR ''.'')
        in if length (ip # more) > 2 then Err ''Too many decimal points.''
           else let fp = (case more of [] \<Rightarrow> [] | f # _ \<Rightarrow> f)
                in case digitLoop base 0 ip of
                     None \<Rightarrow> Err ''Invalid digit for base.''
                   | Some intVal \<Rightarrow>
                       (case parseFractionalInBase fp base of
                          None \<Rightarrow> Err ''Invalid fractional digits.''
                        | Some (num, den) \<Rightarrow> Ok (sign < 0, intVal * den + num, den)))"

section \<open>The quantizer\<close>

text \<open>Lines 98-102: \<open>scaledAbs = round((num/den) * 2^fracBits)\<close>, half up.\<close>

definition scaledAbs :: "int \<Rightarrow> int \<Rightarrow> int \<Rightarrow> int" where
  "scaledAbs rationalNum rationalDen fracBits =
     (let scaledAbsTimesDen = rationalNum * bigShl 1 fracBits;
          q = bigDiv scaledAbsTimesDen rationalDen;
          rem = bigRem scaledAbsTimesDen rationalDen
      in if rem * 2 \<ge> rationalDen then q + 1 else q)"

text \<open>
  Lines 66-104: the scaled integer before the range clamp. BigInt division by zero throws
  a \<^verbatim>\<open>RangeError\<close>.
\<close>

definition candidateScaled :: "string \<Rightarrow> nat \<Rightarrow> int \<Rightarrow> int outcome" where
  "candidateScaled valueStr base fracBits =
     (case parseRational valueStr base of
        Threw e \<Rightarrow> Threw e
      | Err e \<Rightarrow> Err e
      | Ok (negative, rationalNum, rationalDen) \<Rightarrow>
          if rationalDen = 0 then Threw ''RangeError: Division by zero''
          else let sa = scaledAbs rationalNum rationalDen fracBits
               in Ok (if negative then - sa else sa))"

text \<open>Lines 106-118: the range clamp, \<open>(scaled, overflow)\<close>.\<close>

definition rangeClamp :: "bool \<Rightarrow> int \<Rightarrow> int \<Rightarrow> int \<times> bool" where
  "rangeClamp signed N scaled =
     (let lo = minScaled signed N;
          hi = maxScaled signed N;
          overflow = (scaled < lo \<or> scaled > hi)
      in (if overflow then (if scaled < lo then lo else hi) else scaled, overflow))"

text \<open>\<^verbatim>\<open>parseInputToScaled({ valueStr, base, signed, intBits, fracBits })\<close>, lines 61-119.\<close>

definition parseInputToScaled ::
    "string \<Rightarrow> nat \<Rightarrow> bool \<Rightarrow> int \<Rightarrow> int \<Rightarrow> (int \<times> bool) outcome" where
  "parseInputToScaled valueStr base signed intBits fracBits =
     (let N = (if signed then 1 else 0) + intBits + fracBits
      in if N \<le> 0 \<or> intBits < 0 \<or> fracBits < 0 then Err ''Invalid bit widths.''
         else case candidateScaled valueStr base fracBits of
                Threw e \<Rightarrow> Threw e
              | Err e \<Rightarrow> Err e
              | Ok scaled \<Rightarrow> Ok (rangeClamp signed N scaled))"

section \<open>The formatter\<close>

text \<open>\<^verbatim>\<open>binaryWithPointFromScaled(scaled, totalBits, fracBits, signed)\<close>, lines 121-135.\<close>

definition binaryWithPointFromScaled :: "int \<Rightarrow> int \<Rightarrow> int \<Rightarrow> bool \<Rightarrow> string" where
  "binaryWithPointFromScaled scaled totalBits fracBits signed =
     (let N = totalBits;
          F = fracBits;
          bits = bigintToBinary (toTwos signed N scaled) N
      in if F \<le> 0 then bits
         else let cut = nat (max 0 (int (length bits) - F));
                  intPart = (if take cut bits = [] then ''0'' else take cut bits);
                  fracPart = drop cut bits
              in intPart @ ''.'' @ fracPart)"

text \<open>
  \<^verbatim>\<open>hexFromScaled(scaled, totalBits, signed)\<close>, lines 137-145; \<^verbatim>\<open>Math.ceil(N / 4)\<close> is
  \<open>- ((- N) div 4)\<close>.
\<close>

definition hexFromScaled :: "int \<Rightarrow> int \<Rightarrow> bool \<Rightarrow> string" where
  "hexFromScaled scaled totalBits signed =
     (let N = totalBits;
          twos = toTwos signed N scaled
      in padStart (toUpperCase (bigintToString twos 16)) (- ((- N) div 4)) (CHR ''0''))"

text \<open>\<^verbatim>\<open>scaledToDecimalString(scaled, fracBits, precision)\<close>, lines 147-160.\<close>

definition scaledToDecimalString :: "int \<Rightarrow> int \<Rightarrow> int \<Rightarrow> string" where
  "scaledToDecimalString scaled fracBits precision =
     (let sign = (if scaled < 0 then ''-'' else []);
          a = absBig scaled;
          intPart = bigShr a fracBits;
          fracMask = bigShl 1 fracBits - 1;
          frac = a AND fracMask
      in if precision \<le> 0 \<or> fracBits = 0 then sign @ bigintToString intPart 10
         else let tenPow = 10 ^ nat precision;
                  fracDec = bigShr (frac * tenPow + bigShl 1 (fracBits - 1)) fracBits;
                  fracStr = padStart (bigintToString fracDec 10) precision (CHR ''0'')
              in sign @ bigintToString intPart 10 @ ''.'' @ fracStr)"

text \<open>
  \<^verbatim>\<open>plain.replace(/(.{4})/g, "$1 ")\<close>: every run of four code units that holds no line
  terminator gets a space after it, scanning from the left; where four such code units do
  not follow, the scan moves on by one.
\<close>

definition isLineTerminator :: "char \<Rightarrow> bool" where
  "isLineTerminator c = ((of_char c :: nat) \<in> {10, 13})"

fun replaceEvery4 :: "string \<Rightarrow> string" where
  "replaceEvery4 (a # b # c # d # rest) =
     (if isLineTerminator a \<or> isLineTerminator b \<or> isLineTerminator c \<or> isLineTerminator d
      then a # replaceEvery4 (b # c # d # rest)
      else a # b # c # d # CHR '' '' # replaceEvery4 rest)"
| "replaceEvery4 s = s"

text \<open>
  The \<^verbatim>\<open>twosPattern\<close> memo of the component, lines 259-267: the raw bit pattern, grouped
  when \<open>group4\<close> is set; \<open>err\<close> says whether parsing failed.
\<close>

definition twosPattern :: "bool \<Rightarrow> int \<Rightarrow> bool \<Rightarrow> int \<Rightarrow> bool \<Rightarrow> string" where
  "twosPattern err scaled signed totalBits group4 =
     (if err then ''-''
      else let N = totalBits;
               plain = bigintToBinary (toTwos signed N scaled) N
           in if group4 then trim (replaceEvery4 plain) else plain)"

text \<open>
  The grouping the specification describes, in its words: a separator after every 4 bits
  of a segment, none before the first digit of the segment (and so none after its last),
  the integer segment and the fractional segment of the pattern each counted on its own.
\<close>

fun groupSegment :: "char \<Rightarrow> string \<Rightarrow> string" where
  "groupSegment sep (a # b # c # d # e # rest) = a # b # c # d # sep # groupSegment sep (e # rest)"
| "groupSegment sep seg = seg"

definition spec_groupedBits :: "char \<Rightarrow> int \<Rightarrow> string \<Rightarrow> string" where
  "spec_groupedBits sep fracBits bits =
     (let cut = nat (int (length bits) - fracBits)
      in groupSegment sep (take cut bits) @ groupSegment sep (drop cut bits))"

text \<open>
  \<^verbatim>\<open>formatGrouped(bits, groupSize = 4, sep = "_")\<close>, lines 162-177. The program never calls
  it; it is modelled for a group size that is a natural number. Line 165 strips the
  longest run of leading zeros that a digit follows; lines 172-175 are the loop.
\<close>

fun stripLeadingZeros :: "string \<Rightarrow> string" where
  "stripLeadingZeros (c # d # rest) =
     (if c = CHR ''0'' \<and> 48 \<le> (of_char d :: nat) \<and> (of_char d :: nat) \<le> 57
      then (if d = CHR ''0'' then stripLeadingZeros (d # rest) else d # rest)
      else c # d # rest)"
| "stripLeadingZeros s = s"

function groupLoop :: "string \<Rightarrow> nat \<Rightarrow> string \<Rightarrow> nat \<Rightarrow> string \<Rightarrow> string" where
  "groupLoop s groupSize sep i out =
     (if i < length s \<and> 0 < groupSize
      then groupLoop s groupSize sep (i + groupSize) (out @ sep @ take groupSize (drop i s))
      else out)"
  by pat_completeness auto
termination
  by (relation "measure (\<lambda>(s, groupSize, sep, i, out). length s - i)") auto

declare groupLoop.simps [simp del]

definition formatGrouped :: "string \<Rightarrow> nat \<Rightarrow> string \<Rightarrow> string" where
  "formatGrouped bits groupSize sep =
     (let s = stripLeadingZeros bits
      in if s = [] then ''0''
         else if length s \<le> groupSize then s
         else if groupSize = 0 then []
         else let i0 = length s mod groupSize;
                  i = (if i0 = 0 then groupSize else i0)
              in groupLoop s groupSize sep i (take i s))"

section \<open>Two's complement on integers\<close>

lemma bigShl_one: "0 \<le> N \<Longrightarrow> bigShl 1 N = 2 ^ nat N"
  by (simp add: bigShl_def)

lemma and_mask_self:
  fixes t :: int
  assumes "0 \<le> t" "t < 2 ^ n"
  shows "t AND (2 ^ n - 1) = t"
proof -
  have "take_bit n t = t" using assms by (simp add: take_bit_int_eq_self_iff)
  then show ?thesis by (simp add: take_bit_eq_mask mask_eq_exp_minus_1)
qed

lemma and_mask_range:
  fixes t :: int
  shows "0 \<le> t AND (2 ^ n - 1) \<and> t AND (2 ^ n - 1) < 2 ^ n"
proof -
  have "t AND (2 ^ n - 1) = take_bit n t"
    by (simp add: take_bit_eq_mask mask_eq_exp_minus_1)
  then show ?thesis by simp
qed

lemma msb_test:
  fixes t :: int
  assumes "0 \<le> t" "t < 2 ^ Suc k"
  shows "(t AND 2 ^ k \<noteq> 0) = (2 ^ k \<le> t)"
proof (cases "2 ^ k \<le> t")
  case True
  then have "t div 2 ^ k = 1" using assms
    by (intro int_div_pos_eq[where r="t - 2^k"]) auto
  then have "bit t k" by (simp add: bit_iff_odd)
  then show ?thesis using True by (simp add: and_exp_eq_0_iff_not_bit)
next
  case False
  then have "t div 2 ^ k = 0" using assms by simp
  then have "\<not> bit t k" by (simp add: bit_iff_odd)
  then show ?thesis using False by (simp add: and_exp_eq_0_iff_not_bit)
qed

lemma xor_bit_range:
  fixes t :: int
  assumes "0 \<le> t" "t < 2 ^ n" "k < n"
  shows "0 \<le> t XOR 2 ^ k \<and> t XOR 2 ^ k < 2 ^ n"
proof -
  have "take_bit n (t XOR 2 ^ k) = take_bit n t XOR take_bit n (2 ^ k)"
    by (rule take_bit_xor)
  moreover have "take_bit n t = t" using assms by (simp add: take_bit_int_eq_self_iff)
  moreover have "take_bit n ((2::int) ^ k) = 2 ^ k"
    using assms by (simp add: take_bit_int_eq_self_iff)
  ultimately have "take_bit n (t XOR 2 ^ k) = t XOR 2 ^ k" by simp
  then show ?thesis by (rule take_bit_int_eq_self_iff [THEN iffD1])
qed

lemma xor_twice: "((t::int) XOR b) XOR b = t"
  by (simp add: xor.assoc)

lemma toTwos_eq:
  assumes "1 \<le> N" "minScaled signed N \<le> x" "x \<le> maxScaled signed N"
  shows "toTwos signed N x = (if x < 0 then x + 2 ^ nat N else x)"
    and "0 \<le> toTwos signed N x" and "toTwos signed N x < 2 ^ nat N"
proof -
  have N: "nat N = Suc (nat (N - 1))" using assms(1) by simp
  have lo: "signed \<Longrightarrow> - (2 ^ nat (N - 1)) \<le> x" and lo': "\<not> signed \<Longrightarrow> 0 \<le> x"
    and hi: "x < 2 ^ nat N"
    using assms by (auto simp: minScaled_def maxScaled_def bigShl_one N split: if_splits)
  show eq: "toTwos signed N x = (if x < 0 then x + 2 ^ nat N else x)"
  proof (cases "signed \<and> x < 0")
    case True
    then have "0 \<le> x + 2 ^ nat N" "x + 2 ^ nat N < 2 ^ nat N" using lo by (auto simp: N)
    then have "(x + 2 ^ nat N) AND (2 ^ nat N - 1) = x + 2 ^ nat N" by (rule and_mask_self)
    then show ?thesis using True assms(1) by (simp add: toTwos_def bigShl_one)
  next
    case False
    then have "0 \<le> x" using lo' by (cases signed) auto
    then show ?thesis using False by (auto simp: toTwos_def)
  qed
  show "0 \<le> toTwos signed N x" unfolding eq using lo lo' by (cases signed) (auto simp: N)
  show "toTwos signed N x < 2 ^ nat N" unfolding eq using hi by auto
qed

lemma fromTwos_eq:
  assumes "1 \<le> N" "0 \<le> t" "t < 2 ^ nat N"
  shows "fromTwos signed N t = (if signed \<and> 2 ^ nat (N - 1) \<le> t then t - 2 ^ nat N else t)"
proof -
  have N: "nat N = Suc (nat (N - 1))" using assms(1) by simp
  have "(t AND 2 ^ nat (N - 1) \<noteq> 0) = (2 ^ nat (N - 1) \<le> t)"
    using assms(2,3) unfolding N by (rule msb_test)
  then show ?thesis using assms(1) by (simp add: fromTwos_def bigShl_one)
qed

lemma fromTwos_range:
  assumes "1 \<le> N" "0 \<le> t" "t < 2 ^ nat N"
  shows "minScaled signed N \<le> fromTwos signed N t" and "fromTwos signed N t \<le> maxScaled signed N"
proof -
  have N: "nat N = Suc (nat (N - 1))" using assms(1) by simp
  show "minScaled signed N \<le> fromTwos signed N t"
    using assms by (simp add: fromTwos_eq minScaled_def bigShl_one) (simp add: N)
  show "fromTwos signed N t \<le> maxScaled signed N"
    using assms by (simp add: fromTwos_eq maxScaled_def bigShl_one) (simp add: N)
qed

lemma fromTwos_toTwos:
  assumes "1 \<le> N" "minScaled signed N \<le> x" "x \<le> maxScaled signed N"
  shows "fromTwos signed N (toTwos signed N x) = x"
proof -
  have N: "nat N = Suc (nat (N - 1))" using assms(1) by simp
  note tw = toTwos_eq [OF assms]
  have hi: "signed \<Longrightarrow> x < 2 ^ nat (N - 1)" and lo: "\<not> signed \<Longrightarrow> 0 \<le> x"
    using assms by (auto simp: minScaled_def maxScaled_def bigShl_one split: if_splits)
  have "fromTwos signed N (toTwos signed N x) =
      (if signed \<and> 2 ^ nat (N - 1) \<le> toTwos signed N x then toTwos signed N x - 2 ^ nat N
       else toTwos signed N x)"
    using assms(1) tw(2,3) by (rule fromTwos_eq)
  also have "\<dots> = x"
    unfolding tw(1) using hi lo assms(1,2)
    by (cases signed) (auto simp: N minScaled_def bigShl_one)
  finally show ?thesis .
qed

lemma toTwos_fromTwos:
  assumes "1 \<le> N" "0 \<le> t" "t < 2 ^ nat N"
  shows "toTwos signed N (fromTwos signed N t) = t"
proof -
  note r = fromTwos_range [OF assms, of signed]
  have "toTwos signed N (fromTwos signed N t) =
     (if fromTwos signed N t < 0 then fromTwos signed N t + 2 ^ nat N else fromTwos signed N t)"
    using assms(1) r by (rule toTwos_eq(1))
  also have "\<dots> = t"
    using assms by (auto simp: fromTwos_eq)
  finally show ?thesis .
qed

section \<open>Bit patterns as strings\<close>

lemma digitChar_bit: "digitChar 0 = CHR ''0''" "digitChar (Suc 0) = CHR ''1''"
  by (simp_all add: digitChar_def)

lemma bitsValue_acc: "bitsValue u cs = u * 2 ^ length cs + bitsValue 0 cs"
proof (induction cs arbitrary: u)
  case Nil
  show ?case by simp
next
  case (Cons c cs)
  have "bitsValue u (c # cs) = bitsValue (2 * u + (if c = CHR ''1'' then 1 else 0)) cs" by simp
  also have "\<dots> = (2 * u + (if c = CHR ''1'' then 1 else 0)) * 2 ^ length cs + bitsValue 0 cs"
    by (rule Cons.IH)
  also have "\<dots> = u * 2 ^ length (c # cs) + ((if c = CHR ''1'' then 1 else 0) * 2 ^ length cs + bitsValue 0 cs)"
    by (simp add: algebra_simps)
  also have "(if c = CHR ''1'' then 1 else 0) * 2 ^ length cs + bitsValue 0 cs = bitsValue 0 (c # cs)"
    using Cons.IH [of "if c = CHR ''1'' then 1 else 0"] by simp
  finally show ?case .
qed

lemma bitsValue_snoc:
  "bitsValue u (cs @ [c]) = 2 * bitsValue u cs + (if c = CHR ''1'' then 1 else 0)"
  by (induction cs arbitrary: u) simp_all

lemma bitsValue_bounds: "0 \<le> bitsValue 0 cs \<and> bitsValue 0 cs < 2 ^ length cs"
proof (induction cs rule: rev_induct)
  case Nil
  show ?case by simp
next
  case (snoc c cs)
  then show ?case by (auto simp: bitsValue_snoc)
qed

lemma bitsValue_zeros: "bitsValue 0 (replicate m (CHR ''0'') @ cs) = bitsValue 0 cs"
  by (induction m) simp_all

lemma natToString2_value: "bitsValue 0 (natToString 2 n) = int n"
proof (induction n rule: less_induct)
  case (less n)
  show ?case
  proof (cases "n < 2")
    case True
    then have "n = 0 \<or> n = Suc 0" by auto
    then show ?thesis by (auto simp: natToString.simps [of 2 n] digitChar_bit)
  next
    case False
    have d: "digitChar (n mod 2) = CHR ''1'' \<longleftrightarrow> n mod 2 = 1"
    proof (cases "n mod 2 = 0")
      case True then show ?thesis by (simp add: digitChar_bit)
    next
      case False
      then have "n mod 2 = Suc 0" by presburger
      then show ?thesis by (simp add: digitChar_bit)
    qed
    have "bitsValue 0 (natToString 2 n) = 2 * int (n div 2) + (if n mod 2 = 1 then 1 else 0)"
      using False less.IH [of "n div 2"] d
      by (simp add: natToString.simps [of 2 n] bitsValue_snoc)
    also have "\<dots> = int n" by presburger
    finally show ?thesis .
  qed
qed

lemma natToString2_length: "n < 2 ^ k \<Longrightarrow> 0 < k \<Longrightarrow> length (natToString 2 n) \<le> k"
proof (induction k arbitrary: n)
  case 0
  then show ?case by simp
next
  case (Suc k)
  show ?case
  proof (cases "n < 2")
    case True
    then show ?thesis by (simp add: natToString.simps [of 2 n])
  next
    case False
    then have k: "0 < k" using Suc.prems(1) by (cases k) auto
    have "n div 2 < 2 ^ k" using Suc.prems(1) by auto
    then have "length (natToString 2 (n div 2)) \<le> k" using k by (rule Suc.IH)
    then show ?thesis using False by (simp add: natToString.simps [of 2 n])
  qed
qed

lemma natToString2_chars: "set (natToString 2 n) \<subseteq> {CHR ''0'', CHR ''1''}"
proof (induction n rule: less_induct)
  case (less n)
  show ?case
  proof (cases "n < 2")
    case True
    then have "n = 0 \<or> n = Suc 0" by auto
    then show ?thesis by (auto simp: natToString.simps [of 2 n] digitChar_bit)
  next
    case False
    have "n mod 2 = 0 \<or> n mod 2 = Suc 0" by presburger
    then have "digitChar (n mod 2) \<in> {CHR ''0'', CHR ''1''}" by (auto simp: digitChar_bit)
    moreover have "set (natToString 2 (n div 2)) \<subseteq> {CHR ''0'', CHR ''1''}"
      using False by (intro less.IH) auto
    ultimately show ?thesis using False by (simp add: natToString.simps [of 2 n])
  qed
qed

lemma bigintToBinary_props:
  assumes "1 \<le> N" "0 \<le> t" "t < 2 ^ nat N"
  shows "bigintToBinary t N = replicate (nat N - length (natToString 2 (nat t))) (CHR ''0'') @ natToString 2 (nat t)"
    and "length (bigintToBinary t N) = nat N"
    and "bitsValue 0 (bigintToBinary t N) = t"
    and "set (bigintToBinary t N) \<subseteq> {CHR ''0'', CHR ''1''}"
proof -
  have m: "t AND (2 ^ nat N - 1) = t" using assms(2,3) by (rule and_mask_self)
  show eq: "bigintToBinary t N = replicate (nat N - length (natToString 2 (nat t))) (CHR ''0'') @ natToString 2 (nat t)"
    using assms(1,2) m by (simp add: bigintToBinary_def bigShl_one padStart_def bigintToString_def)
  have "nat t < 2 ^ nat N" using assms(2,3) by (simp add: nat_less_iff)
  then have "length (natToString 2 (nat t)) \<le> nat N" using assms(1) by (intro natToString2_length) auto
  then show "length (bigintToBinary t N) = nat N" unfolding eq by simp
  show "bitsValue 0 (bigintToBinary t N) = t"
    unfolding eq using assms(2) by (simp add: bitsValue_zeros natToString2_value)
  show "set (bigintToBinary t N) \<subseteq> {CHR ''0'', CHR ''1''}"
    unfolding eq using natToString2_chars [of "nat t"] by auto
qed

lemma msb_char:
  assumes "length bits = Suc k" "set bits \<subseteq> {CHR ''0'', CHR ''1''}"
  shows "(take 1 bits = ''1'') = (2 ^ k \<le> bitsValue 0 bits)"
proof -
  obtain c cs where b: "bits = c # cs" and l: "length cs = k" using assms(1) by (cases bits) auto
  have v: "bitsValue 0 bits = (if c = CHR ''1'' then 1 else 0) * 2 ^ k + bitsValue 0 cs"
    unfolding b using bitsValue_acc [of "if c = CHR ''1'' then 1 else 0" cs] l by simp
  have "0 \<le> bitsValue 0 cs" "bitsValue 0 cs < 2 ^ k" using bitsValue_bounds [of cs] l by auto
  then show ?thesis unfolding v by (auto simp: b)
qed

lemma spec_fromBits_eq_fromTwos:
  assumes "1 \<le> N" "0 \<le> t" "t < 2 ^ nat N"
  shows "spec_fromBits signed (bigintToBinary t N) = fromTwos signed N t"
proof -
  have N: "nat N = Suc (nat (N - 1))" using assms(1) by simp
  note p = bigintToBinary_props [OF assms]
  have "(take 1 (bigintToBinary t N) = ''1'') = (2 ^ nat (N - 1) \<le> bitsValue 0 (bigintToBinary t N))"
    using p(2) [unfolded N] p(4) by (rule msb_char)
  then show ?thesis
    using p(2,3) by (simp add: spec_fromBits_def fromTwos_eq [OF assms])
qed

lemma toggleBit_eq:
  assumes "1 \<le> N" "minScaled signed N \<le> x" "x \<le> maxScaled signed N" "0 \<le> idx" "idx < N"
  shows "toggleBit signed N x idx = fromTwos signed N (toTwos signed N x XOR 2 ^ nat (N - 1 - idx))"
    and "0 \<le> toTwos signed N x XOR 2 ^ nat (N - 1 - idx)"
    and "toTwos signed N x XOR 2 ^ nat (N - 1 - idx) < 2 ^ nat N"
proof -
  note tw = toTwos_eq [OF assms(1,2,3)]
  have k: "nat (N - 1 - idx) < nat N" using assms by simp
  note r = xor_bit_range [OF tw(2,3) k]
  show "0 \<le> toTwos signed N x XOR 2 ^ nat (N - 1 - idx)" using r by simp
  show "toTwos signed N x XOR 2 ^ nat (N - 1 - idx) < 2 ^ nat N" using r by simp
  have "(toTwos signed N x XOR 2 ^ nat (N - 1 - idx)) AND (2 ^ nat N - 1)
      = toTwos signed N x XOR 2 ^ nat (N - 1 - idx)"
    using r by (intro and_mask_self) auto
  then show "toggleBit signed N x idx = fromTwos signed N (toTwos signed N x XOR 2 ^ nat (N - 1 - idx))"
    using assms by (simp add: toggleBit_def bigShl_one)
qed

lemma toggleBit_range:
  assumes "1 \<le> N" "minScaled signed N \<le> x" "x \<le> maxScaled signed N" "0 \<le> idx" "idx < N"
  shows "minScaled signed N \<le> toggleBit signed N x idx"
    and "toggleBit signed N x idx \<le> maxScaled signed N"
proof -
  note t = toggleBit_eq [OF assms]
  show "minScaled signed N \<le> toggleBit signed N x idx"
    unfolding t(1) using assms(1) t(2,3) by (rule fromTwos_range(1))
  show "toggleBit signed N x idx \<le> maxScaled signed N"
    unfolding t(1) using assms(1) t(2,3) by (rule fromTwos_range(2))
qed

section \<open>Claims on the bit codec\<close>

text \<open>
  C1. For every format with \<open>totalBits \<ge> 1\<close> and every scaled integer in \<open>[min, max]\<close>,
  decoding the bit pattern produced by encoding it yields the scaled integer again. The
  encoder maps a negative scaled value to \<open>scaled + 2^totalBits\<close> and a non-negative one to
  itself; the pattern has exactly \<open>totalBits\<close> binary digits, most significant first, whose
  unsigned value is the encoded integer; and both the specification's decoder of the
  pattern and the program's decoder of the integer return the original value.
\<close>

theorem C1_encode_decode_roundtrip:
  assumes "1 \<le> N" "minScaled signed N \<le> scaled" "scaled \<le> maxScaled signed N"
  shows "toTwos signed N scaled = (if scaled < 0 then scaled + 2 ^ nat N else scaled)
       \<and> length (toBits signed N scaled) = nat N
       \<and> set (toBits signed N scaled) \<subseteq> {CHR ''0'', CHR ''1''}
       \<and> bitsValue 0 (toBits signed N scaled) = toTwos signed N scaled
       \<and> spec_fromBits signed (toBits signed N scaled) = scaled
       \<and> fromTwos signed N (toTwos signed N scaled) = scaled"
proof -
  note tw = toTwos_eq [OF assms]
  note bits = bigintToBinary_props [OF assms(1) tw(2,3)]
  have rt: "fromTwos signed N (toTwos signed N scaled) = scaled"
    using assms by (rule fromTwos_toTwos)
  have "spec_fromBits signed (toBits signed N scaled) = fromTwos signed N (toTwos signed N scaled)"
    unfolding toBits_def using assms(1) tw(2,3) by (rule spec_fromBits_eq_fromTwos)
  then have "spec_fromBits signed (toBits signed N scaled) = scaled" using rt by simp
  then show ?thesis using tw(1) bits(2,3,4) rt unfolding toBits_def by blast
qed

theorem C1_encode_decode_roundtrip_witness:
  "toBits True 5 (- 6) = ''11010''
   \<and> length (toBits True 5 (- 6)) = nat 5
   \<and> spec_fromBits True (toBits True 5 (- 6)) = - 6
   \<and> fromTwos True 5 (toTwos True 5 (- 6)) = - 6"
proof -
  have h: "(1::int) \<le> 5" "minScaled True 5 \<le> - 6" "- 6 \<le> maxScaled True 5"
    by (simp_all add: minScaled_def maxScaled_def bigShl_def)
  have b: "toBits True 5 (- 6) = ''11010''" by code_simp
  show ?thesis using C1_encode_decode_roundtrip [OF h] b by blast
qed

text \<open>
  C7. For every format with \<open>totalBits \<ge> 1\<close>, every scaled value in \<open>[min, max]\<close> and every
  bit index in \<open>[0, totalBits)\<close>, counted from the most significant bit, toggling the same
  bit twice gives the original scaled value.
\<close>

theorem C7_toggle_self_inverse:
  assumes "1 \<le> N" "minScaled signed N \<le> x" "x \<le> maxScaled signed N" "0 \<le> idx" "idx < N"
  shows "toggleBit signed N (toggleBit signed N x idx) idx = x"
proof -
  let ?b = "2 ^ nat (N - 1 - idx) :: int"
  let ?y = "toggleBit signed N x idx"
  note t = toggleBit_eq [OF assms]
  note r = toggleBit_range [OF assms]
  have enc: "toTwos signed N ?y = toTwos signed N x XOR ?b"
    unfolding t(1) using assms(1) t(2,3) by (rule toTwos_fromTwos)
  have "toggleBit signed N ?y idx = fromTwos signed N (toTwos signed N ?y XOR ?b)"
    using assms(1) r assms(4,5) by (rule toggleBit_eq(1))
  also have "\<dots> = fromTwos signed N (toTwos signed N x)"
    unfolding enc by (simp add: xor_twice)
  also have "\<dots> = x" using assms(1,2,3) by (rule fromTwos_toTwos)
  finally show ?thesis .
qed

theorem C7_toggle_self_inverse_witness:
  "toggleBit True 5 (- 6) 0 = 10 \<and> toggleBit True 5 10 0 = - 6
   \<and> toggleBit True 5 (toggleBit True 5 (- 6) 0) 0 = - 6"
proof -
  have h: "(1::int) \<le> 5" "minScaled True 5 \<le> - 6" "- 6 \<le> maxScaled True 5"
      "(0::int) \<le> 0" "(0::int) < 5"
    by (simp_all add: minScaled_def maxScaled_def bigShl_def)
  have a: "toggleBit True 5 (- 6) 0 = 10" by code_simp
  have b: "toggleBit True 5 10 0 = - 6" by code_simp
  show ?thesis using C7_toggle_self_inverse [OF h] a b by simp
qed

text \<open>
  C8. For every format with \<open>totalBits \<ge> 1\<close>, every scaled value in \<open>[min, max]\<close> and every
  bit index in \<open>[0, totalBits)\<close>, the click is not turned away, the toggle it performs
  (encode, flip the one bit, decode) gives a value, and that value lies in \<open>[min, max]\<close>
  as decoded, with no clamp applied.
\<close>

theorem C8_toggle_stays_in_range:
  assumes "1 \<le> N" "minScaled signed N \<le> x" "x \<le> maxScaled signed N" "0 \<le> idx" "idx < N"
  shows "clickBit signed N x idx = Some (toggleBit signed N x idx)
       \<and> minScaled signed N \<le> toggleBit signed N x idx
       \<and> toggleBit signed N x idx \<le> maxScaled signed N"
  using toggleBit_range [OF assms] assms(4,5) by (simp add: clickBit_def)

theorem C8_toggle_stays_in_range_witness:
  "clickBit False 4 15 3 = Some 14 \<and> minScaled False 4 \<le> 14 \<and> 14 \<le> maxScaled False 4"
proof -
  have h: "(1::int) \<le> 4" "minScaled False 4 \<le> 15" "15 \<le> maxScaled False 4"
      "(0::int) \<le> 3" "(3::int) < 4"
    by (simp_all add: minScaled_def maxScaled_def bigShl_def)
  have a: "toggleBit False 4 15 3 = 14" by code_simp
  show ?thesis using C8_toggle_stays_in_range [OF h] a by simp
qed

section \<open>The parser's fractions\<close>

lemma parseInt_radix: "parseInt c base = Some v \<Longrightarrow> \<not> base \<le> v \<Longrightarrow> 2 \<le> base"
  by (auto simp: parseInt_def Let_def split: if_splits option.splits)

lemma digitLoop_nonneg: "digitLoop base acc s = Some n \<Longrightarrow> 0 \<le> acc \<Longrightarrow> 0 \<le> n"
proof (induction s arbitrary: acc)
  case Nil
  then show ?case by simp
next
  case (Cons c cs)
  from Cons.prems(1) obtain v where v: "parseInt c base = Some v" "\<not> base \<le> v"
      and r: "digitLoop base (acc * int base + int v) cs = Some n"
    by (auto split: option.splits if_splits)
  have "0 \<le> acc * int base + int v" using Cons.prems(2) by simp
  with r show ?case by (rule Cons.IH)
qed

lemma digitLoop_base: "digitLoop base acc s = Some n \<Longrightarrow> s \<noteq> [] \<Longrightarrow> 2 \<le> base"
  by (cases s) (auto split: option.splits if_splits dest: parseInt_radix)

lemma parseFractionalInBase_pos:
  assumes "parseFractionalInBase strFrac base = Some (num, den)"
  shows "0 \<le> num \<and> 0 < den"
proof (cases "strFrac = []")
  case True
  then show ?thesis using assms by (simp add: parseFractionalInBase_def)
next
  case False
  from assms False have d: "digitLoop base 0 strFrac = Some num" and den: "den = int base ^ length strFrac"
    by (auto simp: parseFractionalInBase_def Let_def split: option.splits)
  have "0 \<le> num" using d by (rule digitLoop_nonneg) simp
  moreover have "2 \<le> base" using d False by (rule digitLoop_base)
  ultimately show ?thesis using den by simp
qed

lemma decimalIntLoop_nonneg:
  "decimalIntLoop acc t = Some (ip, rest) \<Longrightarrow> 0 \<le> acc \<Longrightarrow> 0 \<le> ip"
proof (induction t arbitrary: acc)
  case Nil
  then show ?case by simp
next
  case (Cons c cs)
  show ?case
  proof (cases "c = CHR ''.''")
    case True
    then show ?thesis using Cons.prems by simp
  next
    case False
    let ?code = "int (of_char c) - 48"
    from Cons.prems(1) False have ok: "\<not> (?code < 0 \<or> ?code > 9)"
        and r: "decimalIntLoop (acc * 10 + ?code) cs = Some (ip, rest)"
      by (auto simp: Let_def split: if_splits)
    have "0 \<le> acc * 10 + ?code" using ok Cons.prems(2) by simp
    with r show ?thesis by (rule Cons.IH)
  qed
qed

lemma parseSignedDecimal_pos:
  assumes "parseSignedDecimal str = Some (sign, ip, num, den)"
  shows "0 \<le> ip \<and> 0 \<le> num \<and> 0 < den"
proof -
  from assms obtain t rest where l: "decimalIntLoop 0 t = Some (ip, rest)"
      and f: "(num = 0 \<and> den = 1) \<or> (\<exists>fs. parseFractionalInBase fs 10 = Some (num, den))"
    by (auto simp: parseSignedDecimal_def Let_def simp del: decimalIntLoop.simps
        split: list.splits option.splits if_splits prod.splits)
  have "0 \<le> ip" using l by (rule decimalIntLoop_nonneg) simp
  moreover have "0 \<le> num \<and> 0 < den" using f by (auto dest: parseFractionalInBase_pos)
  ultimately show ?thesis by simp
qed

lemma parseRational_pos:
  assumes "parseRational valueStr base = Ok (negative, p, q)"
  shows "0 \<le> p \<and> 0 < q"
proof (cases "base = 10")
  case True
  with assms obtain sign ip num den where s: "parseSignedDecimal valueStr = Some (sign, ip, num, den)"
      and e: "p = ip * den + num" "q = den"
    by (auto simp: parseRational_def split: option.splits)
  from parseSignedDecimal_pos [OF s] show ?thesis using e by simp
next
  case False
  with assms obtain ipart fp iv num den where i: "digitLoop base 0 ipart = Some iv"
      and f: "parseFractionalInBase fp base = Some (num, den)"
      and e: "p = iv * den + num" "q = den"
    by (auto simp: parseRational_def Let_def split: option.splits if_splits prod.splits)
  have "0 \<le> iv" using i by (rule digitLoop_nonneg) simp
  with parseFractionalInBase_pos [OF f] show ?thesis using e by simp
qed

lemma parseRational_no_throw: "parseRational valueStr base \<noteq> Threw e"
  by (auto simp: parseRational_def Let_def split: option.splits if_splits prod.splits)

section \<open>Rounding and the clamp\<close>

lemma bigDiv_nonneg: "0 \<le> a \<Longrightarrow> 0 < b \<Longrightarrow> bigDiv a b = a div b"
  by (cases "a = 0") (simp_all add: bigDiv_def)

lemma bigRem_nonneg: "0 \<le> a \<Longrightarrow> 0 < b \<Longrightarrow> bigRem a b = a mod b"
  by (simp add: bigRem_def bigDiv_nonneg minus_mult_div_eq_mod)

lemma scaledAbs_eq:
  assumes "0 \<le> p" "0 < q" "0 \<le> n"
  shows "scaledAbs p q n =
      (p * 2 ^ nat n) div q + (if q \<le> 2 * ((p * 2 ^ nat n) mod q) then 1 else 0)"
proof -
  have "0 \<le> p * 2 ^ nat n" using assms(1) by simp
  then show ?thesis
    using assms by (simp add: scaledAbs_def bigShl_one bigDiv_nonneg bigRem_nonneg Let_def mult.commute)
qed

lemma scaledAbs_nearest:
  assumes "0 \<le> p" "0 < q" "0 \<le> n"
  shows "2 * (p * 2 ^ nat n) - q < 2 * q * scaledAbs p q n"
    and "2 * q * scaledAbs p q n \<le> 2 * (p * 2 ^ nat n) + q"
proof -
  let ?a = "p * 2 ^ nat n"
  have d: "?a = q * (?a div q) + ?a mod q" by simp
  have m: "0 \<le> ?a mod q" "?a mod q < q" using assms(2) by simp_all
  have e: "scaledAbs p q n = ?a div q + (if q \<le> 2 * (?a mod q) then 1 else 0)"
    using assms by (rule scaledAbs_eq)
  have q1: "2 * q * (?a div q + 1) = 2 * (q * (?a div q)) + 2 * q" by (simp add: algebra_simps)
  have q0: "2 * q * (?a div q) = 2 * (q * (?a div q))" by simp
  show "2 * ?a - q < 2 * q * scaledAbs p q n"
  proof (cases "q \<le> 2 * (?a mod q)")
    case True
    have "2 * ?a - q = 2 * (q * (?a div q)) + 2 * (?a mod q) - q" using d by linarith
    also have "\<dots> < 2 * (q * (?a div q)) + 2 * q" using m by linarith
    finally show ?thesis using True e q1 by simp
  next
    case False
    have "2 * ?a - q = 2 * (q * (?a div q)) + 2 * (?a mod q) - q" using d by linarith
    also have "\<dots> < 2 * (q * (?a div q))" using False by linarith
    finally show ?thesis using False e q0 by simp
  qed
  show "2 * q * scaledAbs p q n \<le> 2 * ?a + q"
  proof (cases "q \<le> 2 * (?a mod q)")
    case True
    have "2 * (q * (?a div q)) + 2 * q \<le> 2 * (q * (?a div q)) + 2 * (?a mod q) + q" using True by linarith
    also have "\<dots> = 2 * ?a + q" using d by linarith
    finally show ?thesis using True e q1 by simp
  next
    case False
    have "2 * (q * (?a div q)) \<le> 2 * (q * (?a div q)) + 2 * (?a mod q) + q" using m assms(2) by linarith
    also have "\<dots> = 2 * ?a + q" using d by linarith
    finally show ?thesis using False e q0 by simp
  qed
qed

lemma candidateScaled_eq:
  assumes "parseRational valueStr base = Ok (negative, p, q)"
  shows "candidateScaled valueStr base n = Ok (if negative then - scaledAbs p q n else scaledAbs p q n)"
  using assms parseRational_pos [OF assms] by (simp add: candidateScaled_def Let_def)

lemma min_le_max: "0 < N \<Longrightarrow> minScaled signed N \<le> maxScaled signed N"
  by (simp add: minScaled_def maxScaled_def bigShl_one)

section \<open>Claims on the quantizer and the parser\<close>

lemma zero_in_range: "0 < N \<Longrightarrow> minScaled signed N \<le> 0 \<and> 0 \<le> maxScaled signed N"
  by (simp add: minScaled_def maxScaled_def bigShl_one)

lemma parseInputToScaled_eq:
  assumes "0 \<le> intBits" "0 \<le> fracBits" "N = (if signed then 1 else 0) + intBits + fracBits"
      "0 < N" "candidateScaled valueStr base fracBits = Ok cand"
  shows "parseInputToScaled valueStr base signed intBits fracBits = Ok (rangeClamp signed N cand)"
  using assms by (simp add: parseInputToScaled_def Let_def)

lemma range_explicit:
  assumes "0 < N"
  shows "minScaled signed N = (if signed then - (2 ^ nat (N - 1)) else 0)"
    and "maxScaled signed N = (if signed then 2 ^ nat (N - 1) - 1 else 2 ^ nat N - 1)"
  using assms by (simp_all add: minScaled_def maxScaled_def bigShl_one)

text \<open>
  C2. For every valid format and every input that parses, with \<open>cand\<close> the scaled integer
  before the clamp, \<open>min = -2^(N-1)\<close> and \<open>max = 2^(N-1) - 1\<close> for a signed format,
  \<open>min = 0\<close> and \<open>max = 2^N - 1\<close> for an unsigned one (the range the program computes):
  when \<open>cand\<close> exceeds \<open>max\<close> the result is \<open>max\<close> with the overflow flag set, when it is
  below \<open>min\<close> the result is \<open>min\<close> with the flag set, and when it lies in \<open>[min, max]\<close> it
  is returned unchanged with the flag clear; in each case the call returns a result and
  not an error. With \<open>signed\<close>, \<open>m = 0\<close>, \<open>n = 8\<close>, the input \<open>1.0\<close> in base 10 gives 255
  with the flag set.
\<close>

theorem C2_saturation:
  assumes "0 \<le> intBits" "0 \<le> fracBits" "N = (if signed then 1 else 0) + intBits + fracBits"
      "0 < N"
    and "parseRational valueStr base = Ok (negative, p, q)"
    and "cand = (if negative then - scaledAbs p q fracBits else scaledAbs p q fracBits)"
    and "lo = (if signed then - (2 ^ nat (N - 1)) else 0)"
    and "hi = (if signed then 2 ^ nat (N - 1) - 1 else 2 ^ nat N - 1)"
  shows "candidateScaled valueStr base fracBits = Ok cand
       \<and> minScaled signed N = lo \<and> maxScaled signed N = hi \<and> lo \<le> hi
       \<and> (hi < cand \<longrightarrow>
            parseInputToScaled valueStr base signed intBits fracBits = Ok (hi, True))
       \<and> (cand < lo \<longrightarrow>
            parseInputToScaled valueStr base signed intBits fracBits = Ok (lo, True))
       \<and> (lo \<le> cand \<and> cand \<le> hi \<longrightarrow>
            parseInputToScaled valueStr base signed intBits fracBits = Ok (cand, False))
       \<and> parseInputToScaled ''1.0'' 10 True 0 8 = Ok (255, True)
       \<and> parseInputToScaled ''-3'' 10 True 0 1 = Ok (- 2, True)
       \<and> parseInputToScaled ''-1'' 10 False 4 0 = Ok (0, True)
       \<and> parseInputToScaled ''16'' 10 False 4 0 = Ok (15, True)"
proof -
  have c: "candidateScaled valueStr base fracBits = Ok cand"
    unfolding assms(6) using assms(5) by (rule candidateScaled_eq)
  have r: "parseInputToScaled valueStr base signed intBits fracBits = Ok (rangeClamp signed N cand)"
    using assms(1-4) c by (rule parseInputToScaled_eq)
  have lo: "minScaled signed N = lo" unfolding assms(7) using assms(4) by (rule range_explicit(1))
  have hi: "maxScaled signed N = hi" unfolding assms(8) using assms(4) by (rule range_explicit(2))
  have m: "lo \<le> hi" using min_le_max [OF assms(4), of signed] lo hi by simp
  have above: "hi < cand \<Longrightarrow> rangeClamp signed N cand = (hi, True)"
    using m by (simp add: rangeClamp_def Let_def lo hi)
  have below: "cand < lo \<Longrightarrow> rangeClamp signed N cand = (lo, True)"
    by (simp add: rangeClamp_def Let_def lo hi)
  have mid: "lo \<le> cand \<Longrightarrow> cand \<le> hi \<Longrightarrow> rangeClamp signed N cand = (cand, False)"
    by (simp add: rangeClamp_def Let_def lo hi)
  have ex1: "parseInputToScaled ''1.0'' 10 True 0 8 = Ok (255, True)" by code_simp
  have ex2: "parseInputToScaled ''-3'' 10 True 0 1 = Ok (- 2, True)" by code_simp
  have ex3: "parseInputToScaled ''-1'' 10 False 4 0 = Ok (0, True)" by code_simp
  have ex4: "parseInputToScaled ''16'' 10 False 4 0 = Ok (15, True)" by code_simp
  show ?thesis using c r lo hi m above below mid ex1 ex2 ex3 ex4 by simp
qed

theorem C2_saturation_witness:
  "candidateScaled ''1.0'' 10 8 = Ok 256 \<and> minScaled True 9 = - 256 \<and> maxScaled True 9 = 255
   \<and> parseInputToScaled ''1.0'' 10 True 0 8 = Ok (255, True)
   \<and> candidateScaled ''-3'' 10 1 = Ok (- 6) \<and> minScaled True 2 = - 2 \<and> maxScaled True 2 = 1
   \<and> parseInputToScaled ''-3'' 10 True 0 1 = Ok (- 2, True)"
proof -
  have f: "(0::int) \<le> 0" "(0::int) \<le> 8" "(9::int) = (if True then 1 else 0) + 0 + 8" "(0::int) < 9"
    by simp_all
  have p: "parseRational ''1.0'' 10 = Ok (False, 10, 10)" by code_simp
  have s: "scaledAbs 10 10 8 = 256" by code_simp
  have c: "(256::int) = (if False then - scaledAbs 10 10 8 else scaledAbs 10 10 8)"
    using s by simp
  have l: "(- 256::int) = (if True then - (2 ^ nat (9 - 1)) else 0)" by simp
  have h: "(255::int) = (if True then 2 ^ nat (9 - 1) - 1 else 2 ^ nat 9 - 1)" by simp
  have g: "(0::int) \<le> 0" "(0::int) \<le> 1" "(2::int) = (if True then 1 else 0) + 0 + 1" "(0::int) < 2"
    by simp_all
  have p': "parseRational ''-3'' 10 = Ok (True, 3, 1)" by code_simp
  have s': "scaledAbs 3 1 1 = 6" by code_simp
  have c': "(- 6::int) = (if True then - scaledAbs 3 1 1 else scaledAbs 3 1 1)"
    using s' by simp
  have l': "(- 2::int) = (if True then - (2 ^ nat (2 - 1)) else 0)" by simp
  have h': "(1::int) = (if True then 2 ^ nat (2 - 1) - 1 else 2 ^ nat 2 - 1)" by simp
  show ?thesis
    using C2_saturation [OF f p c l h] C2_saturation [OF g p' c' l' h'] by simp
qed

text \<open>
  C3. For every input that parses, with exact magnitude \<open>p/q\<close> (\<open>p \<ge> 0\<close>, \<open>q > 0\<close>), and
  every fractional bit count \<open>n \<ge> 0\<close>, the scaled magnitude before the clamp is
  \<open>floor(p * 2^n / q)\<close>, plus one exactly when \<open>2 * ((p * 2^n) mod q) \<ge> q\<close>; that is the
  integer nearest to \<open>p * 2^n / q\<close>, a tie going to the larger magnitude; and the sign of
  the input is then applied to it. Quantizing 0.75 with \<open>n = 1\<close> gives magnitude 2.
\<close>

theorem C3_round_half_up:
  assumes "parseRational valueStr base = Ok (negative, p, q)" "0 \<le> n"
  shows "0 \<le> p \<and> 0 < q
       \<and> scaledAbs p q n = (p * 2 ^ nat n) div q + (if q \<le> 2 * ((p * 2 ^ nat n) mod q) then 1 else 0)
       \<and> 2 * (p * 2 ^ nat n) - q < 2 * q * scaledAbs p q n
       \<and> 2 * q * scaledAbs p q n \<le> 2 * (p * 2 ^ nat n) + q
       \<and> candidateScaled valueStr base n = Ok (if negative then - scaledAbs p q n else scaledAbs p q n)
       \<and> candidateScaled ''0.75'' 10 1 = Ok 2"
proof -
  from parseRational_pos [OF assms(1)] have p: "0 \<le> p" and q: "0 < q" by simp_all
  have ex: "candidateScaled ''0.75'' 10 1 = Ok 2" by code_simp
  show ?thesis
    using p q scaledAbs_eq [OF p q assms(2)] scaledAbs_nearest [OF p q assms(2)]
      candidateScaled_eq [OF assms(1), of n] ex
    by blast
qed

theorem C3_round_half_up_witness:
  "parseRational ''-0.75'' 10 = Ok (True, 75, 100)
   \<and> scaledAbs 75 100 1 = 2
   \<and> candidateScaled ''-0.75'' 10 1 = Ok (- 2)"
proof -
  have p: "parseRational ''-0.75'' 10 = Ok (True, 75, 100)" by code_simp
  have n: "(0::int) \<le> 1" by simp
  have s: "scaledAbs 75 100 1 = 2" by code_simp
  show ?thesis using C3_round_half_up [OF p n] p s by simp
qed

text \<open>
  The decimal branch turns an input away that is empty once trimmed and freed of
  separators (line 38).
\<close>

lemma empty_decimal_is_error:
  assumes "rmall (trim valueStr) ''_'' = []" "0 \<le> intBits" "0 \<le> fracBits"
      "0 < (if signed then 1 else 0) + intBits + fracBits"
  shows "parseInputToScaled valueStr 10 signed intBits fracBits = Err ''Invalid decimal input.''"
  using assms
  by (simp add: parseInputToScaled_def candidateScaled_def parseRational_def
      parseSignedDecimal_def Let_def)

text \<open>
  C4 (the program departs from it). In base 2 and in base 16 the empty input is not
  turned away: the branch for these bases has no emptiness test (the decimal branch has
  one, line 38), reads no digits and returns the scaled value 0 with no overflow.
\<close>

theorem C4_empty_input_accepted:
  "parseInputToScaled [] 2 True 3 5 = Ok (0, False)
   \<and> parseInputToScaled [] 16 True 3 5 = Ok (0, False)
   \<and> parseInputToScaled [] 10 True 3 5 = Err ''Invalid decimal input.''"
  by code_simp

lemma parseRational_no_digits:
  assumes "rmall (trim valueStr) ''_'' \<in> {''+'', ''-'', ''.'', ''+.'', ''-.''}"
      "base \<in> {2, 10, 16}"
  shows "\<exists>negative. parseRational valueStr base = Ok (negative, 0, 1)"
  using assms
  by (auto simp: parseRational_def parseSignedDecimal_def parseFractionalInBase_def Let_def)

text \<open>
  C10. For every base in \<open>{2, 10, 16}\<close> and every valid format, an input that, once
  trimmed and freed of separators, is not empty and holds no digit at all, only a sign, a
  radix point, or a sign followed by a radix point, is accepted and converts to the scaled
  value 0 with no overflow, where an error could have been expected.
\<close>

theorem C10_sign_or_point_only:
  assumes "rmall (trim valueStr) ''_'' \<in> {''+'', ''-'', ''.'', ''+.'', ''-.''}"
      "base \<in> {2, 10, 16}"
      "0 \<le> intBits" "0 \<le> fracBits" "0 < (if signed then 1 else 0) + intBits + fracBits"
  shows "parseInputToScaled valueStr base signed intBits fracBits = Ok (0, False)"
proof -
  let ?N = "(if signed then 1 else 0) + intBits + fracBits"
  from parseRational_no_digits [OF assms(1,2)]
  obtain negative where p: "parseRational valueStr base = Ok (negative, 0, 1)" by blast
  have s: "scaledAbs 0 1 fracBits = 0"
    using scaledAbs_eq [of 0 1 fracBits] assms(4) by simp
  have c: "candidateScaled valueStr base fracBits = Ok 0"
    using candidateScaled_eq [OF p, of fracBits] s by simp
  have "parseInputToScaled valueStr base signed intBits fracBits = Ok (rangeClamp signed ?N 0)"
    using assms(3,4) refl assms(5) c by (rule parseInputToScaled_eq)
  moreover have "rangeClamp signed ?N 0 = (0, False)"
    using zero_in_range [OF assms(5), of signed] by (simp add: rangeClamp_def Let_def)
  ultimately show ?thesis by simp
qed

theorem C10_sign_or_point_only_witness:
  "parseInputToScaled ''-.'' 16 False 3 5 = Ok (0, False)
   \<and> parseInputToScaled '' +_'' 10 True 3 5 = Ok (0, False)"
proof -
  have a: "rmall (trim ''-.'') ''_'' \<in> {''+'', ''-'', ''.'', ''+.'', ''-.''}" by code_simp
  have b: "rmall (trim '' +_'') ''_'' \<in> {''+'', ''-'', ''.'', ''+.'', ''-.''}" by code_simp
  have f: "(0::int) \<le> 3" "(0::int) \<le> 5" by simp_all
  have u: "(0::int) < (if False then 1 else 0) + 3 + 5" by simp
  have s: "(0::int) < (if True then 1 else 0) + 3 + 5" by simp
  have h: "(16::nat) \<in> {2, 10, 16}" "(10::nat) \<in> {2, 10, 16}" by simp_all
  show ?thesis
    using C10_sign_or_point_only [OF a h(1) f u] C10_sign_or_point_only [OF b h(2) f s] by simp
qed

section \<open>Claims on the formatter\<close>

text \<open>
  C5 as the specification states it fails: for \<open>signed\<close>, \<open>m = 1\<close>, \<open>n = 3\<close> and the input
  \<open>-0.75\<close> in base 10, the binary text with its point is not \<open>1.1010\<close>.
\<close>

theorem C5_scenario_A_counterexample:
  "\<not> (parseInputToScaled ''-0.75'' 10 True 1 3 = Ok (- 6, False)
      \<and> toBits True 5 (- 6) = ''11010''
      \<and> binaryWithPointFromScaled (- 6) 5 3 True = ''1.1010''
      \<and> hexFromScaled (- 6) 5 True = ''1A'')"
proof -
  have "binaryWithPointFromScaled (- 6) 5 3 True = ''11.010''" by code_simp
  then show ?thesis by simp
qed

text \<open>
  C5, amended. With \<open>signed\<close>, \<open>m = 1\<close>, \<open>n = 3\<close> (5 bits in all), the input \<open>-0.75\<close> in base
  10 converts to the scaled value \<open>-6\<close> with no overflow, the bit pattern \<open>11010\<close>, the
  binary text \<open>11.010\<close> (the point stands \<open>n = 3\<close> digits from the right) and the hex text
  \<open>1A\<close>.
\<close>

theorem C5_scenario_A:
  "parseInputToScaled ''-0.75'' 10 True 1 3 = Ok (- 6, False)
   \<and> toBits True 5 (- 6) = ''11010''
   \<and> binaryWithPointFromScaled (- 6) 5 3 True = ''11.010''
   \<and> hexFromScaled (- 6) 5 True = ''1A''"
  by code_simp

lemma natToString_length:
  "2 \<le> r \<Longrightarrow> n < r ^ k \<Longrightarrow> 0 < k \<Longrightarrow> length (natToString r n) \<le> k"
proof (induction k arbitrary: n)
  case 0
  then show ?case by simp
next
  case (Suc k)
  show ?case
  proof (cases "n < r")
    case True
    then show ?thesis by (simp add: natToString.simps [of r n])
  next
    case False
    then have k: "0 < k" using Suc.prems(2) by (cases k) auto
    have "n div r < r ^ k" using Suc.prems(1,2) by (simp add: less_mult_imp_div_less mult.commute)
    with Suc.prems(1) have "length (natToString r (n div r)) \<le> k" using k by (rule Suc.IH)
    then show ?thesis using False Suc.prems(1) by (simp add: natToString.simps [of r n])
  qed
qed

text \<open>
  The decimal text where no carry arises: for \<open>n > 0\<close> and \<open>p > 0\<close>, as long as the rounded
  fraction stays below \<open>10^p\<close>, the text is the sign, the integer part \<open>|scaled| >> n\<close>, a
  point and exactly \<open>p\<close> digits, those of the fraction rounded to the nearest.
\<close>

lemma scaledToDecimalString_no_carry:
  assumes "0 < n" "0 < p"
    and "frac = absBig x mod 2 ^ nat n"
    and "fracDec = (frac * 10 ^ nat p + 2 ^ nat (n - 1)) div 2 ^ nat n"
    and "fracDec < 10 ^ nat p"
  shows "scaledToDecimalString x n p =
           (if x < 0 then ''-'' else []) @ bigintToString (absBig x div 2 ^ nat n) 10 @ ''.''
             @ padStart (bigintToString fracDec 10) p (CHR ''0'')"
    and "length (padStart (bigintToString fracDec 10) p (CHR ''0'')) = nat p"
proof -
  have a: "0 \<le> absBig x" by (simp add: absBig_def)
  have m: "absBig x AND (2 ^ nat n - 1) = absBig x mod 2 ^ nat n"
    by (simp add: take_bit_eq_mask [symmetric] mask_eq_exp_minus_1 [symmetric] take_bit_eq_mod)
  show "scaledToDecimalString x n p =
           (if x < 0 then ''-'' else []) @ bigintToString (absBig x div 2 ^ nat n) 10 @ ''.''
             @ padStart (bigintToString fracDec 10) p (CHR ''0'')"
    using assms(1,2) m
    by (simp add: scaledToDecimalString_def Let_def bigShl_def bigShr_def drop_bit_eq_div
        push_bit_eq_mult assms(3,4))
  have f0: "0 \<le> frac" unfolding assms(3) by simp
  then have d0: "0 \<le> fracDec" unfolding assms(4) by (simp add: pos_imp_zdiv_nonneg_iff)
  have "nat fracDec < 10 ^ nat p" using assms(5) d0 by (simp add: nat_less_iff)
  then have "length (natToString 10 (nat fracDec)) \<le> nat p"
    using assms(2) by (intro natToString_length) auto
  then show "length (padStart (bigintToString fracDec 10) p (CHR ''0'')) = nat p"
    using d0 by (simp add: padStart_def bigintToString_def)
qed

text \<open>
  C6 (the program departs from it). With \<open>n = 5\<close> and one fractional digit asked for, the
  scaled value 31 (0.96875) is rendered \<open>0.10\<close>: the rounded fraction reaches \<open>10^p\<close>, is
  written with \<open>p + 1\<close> digits, and no carry goes into the integer part.
\<close>

theorem C6_fraction_carry_lost:
  "scaledToDecimalString 31 5 1 = ''0.10''
   \<and> scaledToDecimalString (- 31) 5 1 = ''-0.10''
   \<and> scaledToDecimalString 30 5 1 = ''0.9''"
  by code_simp

section \<open>Grouping the raw pattern\<close>

lemma bigintToBinary_any:
  assumes "1 \<le> N"
  shows "length (bigintToBinary t N) = nat N"
    and "set (bigintToBinary t N) \<subseteq> {CHR ''0'', CHR ''1''}"
proof -
  let ?m = "t AND (2 ^ nat N - 1)"
  have r: "0 \<le> ?m" "?m < 2 ^ nat N" using and_mask_range [of t "nat N"] by simp_all
  have "?m AND (2 ^ nat N - 1) = ?m" using r by (rule and_mask_self)
  then have e: "bigintToBinary t N = bigintToBinary ?m N"
    using assms by (simp add: bigintToBinary_def bigShl_one)
  show "length (bigintToBinary t N) = nat N"
    unfolding e using assms r by (rule bigintToBinary_props(2))
  show "set (bigintToBinary t N) \<subseteq> {CHR ''0'', CHR ''1''}"
    unfolding e using assms r by (rule bigintToBinary_props(4))
qed

lemma bit_not_terminator: "c \<in> {CHR ''0'', CHR ''1''} \<Longrightarrow> \<not> isLineTerminator c"
  by (auto simp: isLineTerminator_def)

lemma bit_not_space: "c \<in> {CHR ''0'', CHR ''1''} \<Longrightarrow> \<not> isWhiteSpace c"
  by (auto simp: isWhiteSpace_def)

lemma replaceEvery4_bits:
  "set s \<subseteq> {CHR ''0'', CHR ''1''} \<Longrightarrow>
   replaceEvery4 s = groupSegment (CHR '' '') s @ (if s \<noteq> [] \<and> length s mod 4 = 0 then '' '' else [])"
proof (induction s rule: replaceEvery4.induct)
  case (1 a b c d rest)
  have "a \<in> {CHR ''0'', CHR ''1''}" "b \<in> {CHR ''0'', CHR ''1''}"
      "c \<in> {CHR ''0'', CHR ''1''}" "d \<in> {CHR ''0'', CHR ''1''}"
    using "1.prems" by simp_all
  then have nt: "\<not> (isLineTerminator a \<or> isLineTerminator b \<or> isLineTerminator c \<or> isLineTerminator d)"
    using bit_not_terminator by blast
  have "set rest \<subseteq> {CHR ''0'', CHR ''1''}" using "1.prems" by auto
  with nt have ih: "replaceEvery4 rest =
      groupSegment (CHR '' '') rest @ (if rest \<noteq> [] \<and> length rest mod 4 = 0 then '' '' else [])"
    by (rule "1.IH"(2))
  show ?case
  proof (cases rest)
    case Nil
    then show ?thesis using nt by simp
  next
    case (Cons e r)
    have "length (a # b # c # d # rest) mod 4 = length rest mod 4" by simp
    then show ?thesis using nt ih Cons by simp
  qed
qed simp_all

lemma groupSegment_ends:
  "s \<noteq> [] \<Longrightarrow> hd (groupSegment sep s) = hd s \<and> last (groupSegment sep s) = last s
     \<and> groupSegment sep s \<noteq> []"
  by (induction sep s rule: groupSegment.induct) auto

lemma groupSegment_filter:
  "sep \<notin> set s \<Longrightarrow> filter (\<lambda>c. c \<noteq> sep) (groupSegment sep s) = s"
  by (induction sep s rule: groupSegment.induct) auto

lemma trim_inner:
  assumes "g \<noteq> []" "\<not> isWhiteSpace (hd g)" "\<not> isWhiteSpace (last g)"
  shows "trim g = g" and "trim (g @ '' '') = g"
proof -
  have h: "dropWhile isWhiteSpace g = g" using assms(1,2) by (cases g) auto
  have l: "dropWhile isWhiteSpace (rev g) = rev g"
    using assms(1,3) by (cases "rev g") (auto simp: hd_rev)
  show "trim g = g" by (simp add: trim_def h l)
  have h': "dropWhile isWhiteSpace (g @ '' '') = g @ '' ''" using assms(1,2) by (cases g) auto
  have sp: "isWhiteSpace (CHR '' '')" by (simp add: isWhiteSpace_def)
  show "trim (g @ '' '') = g" by (simp add: trim_def h' l sp)
qed

lemma trim_replaceEvery4_bits:
  assumes "s \<noteq> []" "set s \<subseteq> {CHR ''0'', CHR ''1''}"
  shows "trim (replaceEvery4 s) = groupSegment (CHR '' '') s"
proof -
  note e = groupSegment_ends [OF assms(1), of "CHR '' ''"]
  have "hd s \<in> set s" "last s \<in> set s" using assms(1) by simp_all
  then have "hd s \<in> {CHR ''0'', CHR ''1''}" "last s \<in> {CHR ''0'', CHR ''1''}"
    using assms(2) by blast+
  then have "\<not> isWhiteSpace (hd s)" "\<not> isWhiteSpace (last s)"
    using bit_not_space by blast+
  then have w: "\<not> isWhiteSpace (hd (groupSegment (CHR '' '') s))"
      "\<not> isWhiteSpace (last (groupSegment (CHR '' '') s))"
    using e by simp_all
  have g: "groupSegment (CHR '' '') s \<noteq> []" using e by simp
  show ?thesis
    unfolding replaceEvery4_bits [OF assms(2)]
    using trim_inner [OF g w] by simp
qed

section \<open>Claims on grouping\<close>

text \<open>
  C9 as the specification states it fails. With \<open>signed\<close>, \<open>m = 1\<close>, \<open>n = 3\<close> the pattern of
  \<open>-6\<close> is \<open>11010\<close>: an integer segment of two bits and a fractional segment of three.
  Counted within each segment no group of 4 is complete, so the grouping of the
  specification inserts nothing; the program writes \<open>1101 0\<close>, a group that runs across
  the place of the radix point.
\<close>

theorem C9_grouping_counterexample:
  "twosPattern False (- 6) True 5 True = ''1101 0''
   \<and> spec_groupedBits (CHR '' '') 3 (toBits True 5 (- 6)) = ''11010''
   \<and> twosPattern False (- 6) True 5 True \<noteq> spec_groupedBits (CHR '' '') 3 (toBits True 5 (- 6))"
  by code_simp

text \<open>
  C9, amended. When grouping is enabled, the grouped raw pattern is the ungrouped digit
  sequence unchanged except for inserted separators: one space after every 4 bits, counted
  from the most significant bit through the whole pattern as a single segment (the text
  has no radix point), never before the first digit and never after the last.
\<close>

theorem C9_grouping_whole_pattern:
  assumes "1 \<le> N"
  shows "twosPattern False scaled signed N True = groupSegment (CHR '' '') (toBits signed N scaled)
       \<and> twosPattern False scaled signed N False = toBits signed N scaled
       \<and> filter (\<lambda>c. c \<noteq> CHR '' '') (twosPattern False scaled signed N True)
           = twosPattern False scaled signed N False
       \<and> twosPattern False scaled signed N True \<noteq> []
       \<and> hd (twosPattern False scaled signed N True) \<noteq> CHR '' ''
       \<and> last (twosPattern False scaled signed N True) \<noteq> CHR '' ''"
proof -
  let ?bits = "toBits signed N scaled"
  have len: "length ?bits = nat N" and chars: "set ?bits \<subseteq> {CHR ''0'', CHR ''1''}"
    unfolding toBits_def using assms by (rule bigintToBinary_any)+
  have ne: "?bits \<noteq> []" using len assms by auto
  have plain: "twosPattern False scaled signed N False = ?bits"
    by (simp add: twosPattern_def toBits_def)
  have grouped: "twosPattern False scaled signed N True = groupSegment (CHR '' '') ?bits"
    using trim_replaceEvery4_bits [OF ne chars] by (simp add: twosPattern_def toBits_def)
  have nosp: "CHR '' '' \<notin> set ?bits" using chars by auto
  have f: "filter (\<lambda>c. c \<noteq> CHR '' '') (groupSegment (CHR '' '') ?bits) = ?bits"
    using nosp by (rule groupSegment_filter)
  note e = groupSegment_ends [OF ne, of "CHR '' ''"]
  have "hd ?bits \<in> set ?bits" "last ?bits \<in> set ?bits" using ne by simp_all
  then have "hd ?bits \<noteq> CHR '' ''" "last ?bits \<noteq> CHR '' ''" using nosp by auto
  then show ?thesis using grouped plain f e by simp
qed

theorem C9_grouping_whole_pattern_witness:
  "twosPattern False (- 6) True 9 True = ''1111 1101 0''
   \<and> twosPattern False (- 6) True 9 False = ''111111010''
   \<and> filter (\<lambda>c. c \<noteq> CHR '' '') (twosPattern False (- 6) True 9 True)
       = twosPattern False (- 6) True 9 False"
proof -
  have h: "(1::int) \<le> 9" by simp
  have b: "toBits True 9 (- 6) = ''111111010''" by code_simp
  show ?thesis using C9_grouping_whole_pattern [OF h, of "- 6" True] b by simp
qed

text \<open>
  The unused helper \<^verbatim>\<open>formatGrouped\<close> does not keep the digit sequence either: it drops
  leading zeros, and it counts its groups from the right.
\<close>

lemma formatGrouped_examples:
  "formatGrouped ''00010000'' 4 ''_'' = ''1_0000''
   \<and> formatGrouped ''110101'' 4 ''_'' = ''11_0101''
   \<and> formatGrouped ''0000'' 4 ''_'' = ''0''"
  by code_simp

end
